theory Spec2Isabelle
  imports Main "HOL-Library.Word"
begin

unbundle bit_operations_syntax

section \<open>Simulation-based combinational equivalence checking (simulation\_cec.hpp)\<close>

text \<open>
  All counters of the source are \<open>uint32_t\<close>; they are modelled as 32-bit words, so
  that \<open>+\<close>, \<open>-\<close> and \<open>*\<close> wrap around and \<open>\<le>\<close>, \<open><\<close> compare unsigned.

  The source shifts the \<open>int\<close> literal \<open>1\<close> (\<open>1 << k\<close>) and a \<open>uint32_t\<close>
  (\<open>round >> k\<close>) by a run-time count. In C++ such a shift has a value only for
  \<open>k < 32\<close> (for \<open>1 << 31\<close>, since C++14); for a larger count the behaviour is
  undefined. Functions that shift
  return an option: \<open>None\<close> stands for "the source executes a shift by 32 or more
  bits", \<open>Some v\<close> for a defined result \<open>v\<close>.
\<close>

type_synonym u32 = "32 word"

subsection \<open>Statistics\<close>

record simulation_cec_stats =
  split_var :: u32
  rounds :: u32

definition default_stats :: simulation_cec_stats where
  "default_stats = \<lparr>split_var = 0, rounds = 0\<rparr>"

subsection \<open>SplitPlanner\<close>

text \<open>
  \<open>1 << k\<close> on \<open>int\<close>, converted to \<open>uint32_t\<close>. For \<open>k = 31\<close> the value is the sign
  bit, which converts to \<open>2^31\<close>; adding the \<open>int\<close> 32 to it does not overflow, so the
  sum \<open>32 + (1 << k)\<close>, converted to unsigned for the product with \<open>V\<close>, is the word
  sum.
\<close>

definition shl1 :: "u32 \<Rightarrow> u32 option" where
  "shl1 k = (if 32 \<le> unat k then None else Some (push_bit (unat k) 1))"

text \<open>
  \<^verbatim>\<open>while (m <= n && (32 + (1 << (m - 3))) * V <= (1 << 29)) { m++; }\<close>

  The \<open>while\<close> loop of \<open>compute_split_var\<close>, started at \<open>m\<close>; the result is the value
  of \<open>m\<close> when the loop is left. The budget test is only evaluated when \<open>m \<le> n\<close>
  (short-circuit \<open>&&\<close>).
\<close>

function split_loop :: "u32 \<Rightarrow> u32 \<Rightarrow> u32 \<Rightarrow> u32 option" where
  "split_loop n V m =
     (if m \<le> n then
        (case shl1 (m - 3) of
           None \<Rightarrow> None
         | Some p \<Rightarrow> if (32 + p) * V \<le> 2 ^ 29 then split_loop n V (m + 1) else Some m)
      else Some m)"
  by pat_completeness auto

lemma shl1_sub3_SomeD:
  "shl1 (m - 3) = Some p \<Longrightarrow> 3 \<le> unat m \<and> unat m < 35 \<and> p = 2 ^ (unat m - 3)"
  by (auto simp: shl1_def unat_sub_if' push_bit_eq_mult split: if_splits)

lemma unat_Suc_small: "unat (m::u32) < 35 \<Longrightarrow> unat (m + 1) = Suc (unat m)"
  by (simp add: unat_word_ariths)

termination split_loop
proof (relation "measure (\<lambda>(n, V, m). 35 - unat m)")
  show "wf (measure (\<lambda>(n, V, m). 35 - unat m))" by simp
next
  fix n V m :: u32 and p :: u32
  assume "shl1 (m - 3) = Some p"
  then have "unat m < 35" by (simp add: shl1_sub3_SomeD)
  then show "((n, V, m + 1), (n, V, m)) \<in> measure (\<lambda>(n, V, m). 35 - unat m)"
    by (simp add: unat_Suc_small)
qed

declare split_loop.simps [simp del]

text \<open>
  \<^verbatim>\<open>if (n <= 6) { return n; } else { uint32_t m = 7; while (...) { m++; } return m-1; }\<close>
\<close>

definition compute_split_var :: "u32 \<Rightarrow> u32 \<Rightarrow> u32 option" where
  "compute_split_var n V =
     (if n \<le> 6 then Some n
      else map_option (\<lambda>m. m - 1) (split_loop n V 7))"

text \<open>
  \<^verbatim>\<open>uint32_t rounds = (1 << n - sp); return rounds;\<close>

  \<open>1 << n - sp\<close> parses as \<open>1 << (n - sp)\<close>; the subtraction is unsigned and wraps.
\<close>

definition compute_round :: "u32 \<Rightarrow> u32 \<Rightarrow> u32 option" where
  "compute_round n sp = shl1 (n - sp)"

subsection \<open>Truth tables\<close>

text \<open>
  Modelled from the spec: the truth-table value type \<open>kitty::dynamic_truth_table\<close> and
  its operations (construct as zero, complement, project a variable, test for all-zero)
  are not part of the source tree. The specification describes a table over \<open>k\<close>
  variables as a bit-vector of width \<open>2^k\<close>, one bit per assignment of the variables;
  bit \<open>j\<close> of the projection table of variable \<open>v\<close> is bit \<open>v\<close> of \<open>j\<close>.
\<close>

record dynamic_truth_table =
  num_vars :: nat
  bits :: "bool list"

text \<open>Modelled from the spec: construct-as-zero, \<open>kitty::dynamic_truth_table tt(k)\<close>.\<close>

definition construct_zero :: "nat \<Rightarrow> dynamic_truth_table" where
  "construct_zero k = \<lparr>num_vars = k, bits = replicate (2 ^ k) False\<rparr>"

text \<open>Modelled from the spec: the bitwise complement \<open>~tt\<close>; the variable count stays.\<close>

definition complement :: "dynamic_truth_table \<Rightarrow> dynamic_truth_table" where
  "complement t = t\<lparr>bits := map Not (bits t)\<rparr>"

text \<open>Modelled from the spec: the projection table of variable \<open>v\<close>, written into \<open>t\<close>.\<close>

definition create_nth_var :: "dynamic_truth_table \<Rightarrow> nat \<Rightarrow> dynamic_truth_table" where
  "create_nth_var t v = t\<lparr>bits := map (\<lambda>j. bit j v) [0..<2 ^ num_vars t]\<rparr>"

text \<open>Modelled from the spec: the zero test, true when no bit of the table is set.\<close>

definition is_const0 :: "dynamic_truth_table \<Rightarrow> bool" where
  "is_const0 t = list_all Not (bits t)"

text \<open>The width of a table is the number of its bits.\<close>

definition table_width :: "dynamic_truth_table \<Rightarrow> nat" where
  "table_width t = length (bits t)"

subsection \<open>PartialSimulator\<close>

text \<open>The private members \<open>split_var\<close> and \<open>round\<close> of \<open>part_simulator\<close>.\<close>

record part_simulator =
  psim_split_var :: u32
  psim_round :: u32

text \<open>
  \<^verbatim>\<open>kitty::dynamic_truth_table tt(split_var); return value ? ~tt : tt;\<close>
\<close>

definition compute_constant :: "part_simulator \<Rightarrow> bool \<Rightarrow> dynamic_truth_table" where
  "compute_constant ps v =
     (let tt = construct_zero (unat (psim_split_var ps))
      in if v then complement tt else tt)"

text \<open>
  The local \<open>value\<close> of \<open>compute_pi\<close>: \<open>(round >> (index - split_var)) & 1\<close>, converted
  to \<open>bool\<close>. It is read only on the branch \<open>index \<ge> split_var\<close> and after the shift
  count has been found below 32.
\<close>

definition pi_value :: "part_simulator \<Rightarrow> u32 \<Rightarrow> bool" where
  "pi_value ps index =
     (drop_bit (unat (index - psim_split_var ps)) (psim_round ps) AND 1 \<noteq> 0)"

text \<open>
  \<^verbatim>\<open>kitty::dynamic_truth_table tt(split_var);
  if (index < split_var) { kitty::create_nth_var(tt, index); }
  else { bool value = ((round >> (index - split_var)) & 1); if (value == 0) { tt = ~tt; } }
  return tt;\<close>

  \<open>None\<close> when the shift count \<open>index - split_var\<close> is 32 or more.
\<close>

definition compute_pi :: "part_simulator \<Rightarrow> u32 \<Rightarrow> dynamic_truth_table option" where
  "compute_pi ps index =
     (let tt = construct_zero (unat (psim_split_var ps))
      in if index < psim_split_var ps then Some (create_nth_var tt (unat index))
         else if 32 \<le> unat (index - psim_split_var ps) then None
         else if pi_value ps index = False then Some (complement tt)
         else Some tt)"

text \<open>
  \<^verbatim>\<open>return ~value;\<close>
\<close>

definition compute_not :: "part_simulator \<Rightarrow> dynamic_truth_table \<Rightarrow> dynamic_truth_table" where
  "compute_not ps v = complement v"

text \<open>
  The values that round \<open>rnd\<close> fixes for the non-split inputs \<open>sp, sp + 1, \<dots>, n - 1\<close>,
  in this order, as \<open>compute_pi\<close> reads them from the round index.
\<close>

definition round_assignment :: "u32 \<Rightarrow> u32 \<Rightarrow> u32 \<Rightarrow> bool list" where
  "round_assignment n sp rnd =
     map (\<lambda>j. pi_value \<lparr>psim_split_var = sp, psim_round = rnd\<rparr> (sp + of_nat j))
       [0..<unat n - unat sp]"

subsection \<open>RoundController\<close>

text \<open>
  The network type, the generic evaluator \<open>simulate\<close> and the miter construction are
  external collaborators of the source and are taken as parameters: \<open>num_pis\<close> and
  \<open>num_gates\<close> read the counts of a network, \<open>simulate ntk ps\<close> is the list of output
  tables the evaluator returns for the network under the simulator \<open>ps\<close>, and
  \<open>miter\<close> returns the combined network, or \<open>None\<close> when it cannot be built.
\<close>

record 'ntk collaborators =
  num_pis :: "'ntk \<Rightarrow> u32"
  num_gates :: "'ntk \<Rightarrow> u32"
  simulate :: "'ntk \<Rightarrow> part_simulator \<Rightarrow> dynamic_truth_table list"
  miter :: "'ntk \<Rightarrow> 'ntk \<Rightarrow> 'ntk option"

text \<open>The inner \<open>for\<close> loop over the output tables: \<open>False\<close> at the first table that is not zero.\<close>

fun check_outputs :: "dynamic_truth_table list \<Rightarrow> bool" where
  "check_outputs [] = True"
| "check_outputs (out # tts) = (if is_const0 out = False then False else check_outputs tts)"

text \<open>
  The round loop of \<open>run\<close>, started at round \<open>i\<close>. Besides the verdict it returns the
  indices of the rounds for which the evaluator was invoked, in order; this list is
  not a value of the source but records which evaluator passes were executed.
\<close>

function round_loop ::
  "(part_simulator \<Rightarrow> dynamic_truth_table list) \<Rightarrow> u32 \<Rightarrow> u32 \<Rightarrow> u32 \<Rightarrow> bool \<times> u32 list" where
  "round_loop sim sp rnds i =
     (if i < rnds then
        (let psim = \<lparr>psim_split_var = sp, psim_round = i\<rparr>;
             tts = sim psim
         in if check_outputs tts
            then (let (res, passes) = round_loop sim sp rnds (i + 1) in (res, i # passes))
            else (False, [i]))
      else (True, []))"
  by pat_completeness auto

lemma unat_Suc_less: "(i::u32) < k \<Longrightarrow> unat (i + 1) = Suc (unat i)"
proof -
  assume "i < k"
  then have "unat i < unat k" by (simp add: word_less_nat_alt)
  moreover have "unat k < 2 ^ 32" using unsigned_less [of k] by simp
  ultimately show ?thesis by (simp add: unat_word_ariths)
qed

termination round_loop
proof (relation "measure (\<lambda>(sim, sp, rnds, i). unat rnds - unat i)")
  show "wf (measure (\<lambda>(sim, sp, rnds, i). unat rnds - unat i))" by simp
next
  fix sim :: "part_simulator \<Rightarrow> dynamic_truth_table list" and sp rnds i :: u32
  assume "i < rnds"
  then show "((sim, sp, rnds, i + 1), (sim, sp, rnds, i))
      \<in> measure (\<lambda>(sim, sp, rnds, i). unat rnds - unat i)"
    by (simp add: unat_Suc_less word_less_nat_alt)
qed

declare round_loop.simps [simp del]

text \<open>
  \<^verbatim>\<open>uint32_t n = _ntk.num_pis(); uint32_t V = _ntk.num_gates();
  uint32_t split_var = compute_split_var(n, V); uint32_t rounds = compute_round(n, split_var);
  _st.split_var = split_var; _st.rounds = rounds;
  for (uint32_t i = 0; i < rounds; i++) {
    part_simulator psim(split_var, i);
    const auto tts = simulate<kitty::dynamic_truth_table>(_ntk, psim);
    for (auto &out : tts) { if (kitty::is_const0(out) == 0) { return false; } }
  }
  return true;\<close>

  \<open>run\<close> on the network \<open>ntk\<close> with the statistics object \<open>st\<close>: the verdict, the
  statistics object after the call, and the rounds simulated. \<open>None\<close> when the planner
  shifts by 32 bits or more.
\<close>

definition run ::
  "'ntk collaborators \<Rightarrow> 'ntk \<Rightarrow> simulation_cec_stats \<Rightarrow>
     (bool \<times> simulation_cec_stats \<times> u32 list) option" where
  "run ops ntk st =
     (let n = num_pis ops ntk; V = num_gates ops ntk
      in case compute_split_var n V of
           None \<Rightarrow> None
         | Some sp \<Rightarrow>
             (case compute_round n sp of
                None \<Rightarrow> None
              | Some rnds \<Rightarrow>
                  (let st' = st\<lparr>split_var := sp, rounds := rnds\<rparr>;
                       (res, passes) = round_loop (simulate ops ntk) sp rnds 0
                   in Some (res, st', passes))))"

subsection \<open>Equivalence entry point\<close>

text \<open>
  \<^verbatim>\<open>simulation_cec_stats st; bool result = false;
  if (ntk1.num_pis() > 40) return std::nullopt;
  auto ntk_miter = miter<Ntk>(ntk1, ntk2);
  if (ntk_miter.has_value()) { detail::simulation_cec_impl p(*ntk_miter, st); result = p.run(); }
  if (pst) *pst = st;
  return result;\<close>

  \<open>simulation_cec ntk1 ntk2 pst\<close>. The pointer \<open>pst\<close> is \<open>None\<close> for \<open>nullptr\<close> and
  \<open>Some s\<close> for a statistics object that holds \<open>s\<close>; the result pairs the returned
  \<open>std::optional<bool>\<close> with the contents of that object after the call.
\<close>

definition simulation_cec ::
  "'ntk collaborators \<Rightarrow> 'ntk \<Rightarrow> 'ntk \<Rightarrow> simulation_cec_stats option \<Rightarrow>
     (bool option \<times> simulation_cec_stats option) option" where
  "simulation_cec ops ntk1 ntk2 pst =
     (let st = default_stats; result = False
      in if 40 < num_pis ops ntk1 then Some (None, pst)
         else (case miter ops ntk1 ntk2 of
                 None \<Rightarrow> Some (Some result, map_option (\<lambda>_. st) pst)
               | Some ntk_miter \<Rightarrow>
                   (case run ops ntk_miter st of
                      None \<Rightarrow> None
                    | Some (res, st', passes) \<Rightarrow> Some (Some res, map_option (\<lambda>_. st') pst))))"

subsection \<open>A gate-level instance of the collaborators\<close>

text \<open>
  Modelled from the spec: the network data structure, the generic evaluator and the
  miter construction are not part of the source tree. The specification asks of the
  evaluator that it returns one table per primary output, combining the simulator's
  tables for constants, primary inputs and negation with the node's own rule for
  gates, and of the miter that it combines two networks of equal arity into one
  whose outputs are the pairwise XOR of their outputs, and fails otherwise. The
  instance below is the smallest network type with these properties: every output is
  a formula over constants, primary inputs, negation and two-input AND and XOR
  gates. A primary input whose index makes \<open>compute_pi\<close> shift by 32 bits or more is
  given the zero table; no such input is below the input count in a round that
  \<open>run\<close> starts.
\<close>

text \<open>Modelled from the spec: the bitwise AND of two tables, the rule of an AND gate.\<close>

definition table_and :: "dynamic_truth_table \<Rightarrow> dynamic_truth_table \<Rightarrow> dynamic_truth_table" where
  "table_and s t = s\<lparr>bits := map2 (\<and>) (bits s) (bits t)\<rparr>"

text \<open>Modelled from the spec: the bitwise XOR of two tables, the rule of an XOR gate.\<close>

definition table_xor :: "dynamic_truth_table \<Rightarrow> dynamic_truth_table \<Rightarrow> dynamic_truth_table" where
  "table_xor s t = s\<lparr>bits := map2 (\<noteq>) (bits s) (bits t)\<rparr>"

text \<open>Modelled from the spec: a signal of the network, as the formula that drives it.\<close>

datatype signal =
  Constant bool
| Input u32
| Inverted signal
| And_gate signal signal
| Xor_gate signal signal

text \<open>Modelled from the spec: a network, by its primary-input count and its primary outputs.\<close>

record network =
  inputs :: u32
  outputs :: "signal list"

text \<open>Modelled from the spec: the evaluator on one signal, under the simulator \<open>ps\<close>.\<close>

fun evaluate :: "part_simulator \<Rightarrow> signal \<Rightarrow> dynamic_truth_table" where
  "evaluate ps (Constant b) = compute_constant ps b"
| "evaluate ps (Input i) =
     (case compute_pi ps i of
        Some t \<Rightarrow> t
      | None \<Rightarrow> construct_zero (unat (psim_split_var ps)))"
| "evaluate ps (Inverted a) = compute_not ps (evaluate ps a)"
| "evaluate ps (And_gate a b) = table_and (evaluate ps a) (evaluate ps b)"
| "evaluate ps (Xor_gate a b) = table_xor (evaluate ps a) (evaluate ps b)"

text \<open>Modelled from the spec: the number of gates below a signal.\<close>

fun gate_count :: "signal \<Rightarrow> nat" where
  "gate_count (Constant b) = 0"
| "gate_count (Input i) = 0"
| "gate_count (Inverted a) = gate_count a"
| "gate_count (And_gate a b) = Suc (gate_count a + gate_count b)"
| "gate_count (Xor_gate a b) = Suc (gate_count a + gate_count b)"

text \<open>Modelled from the spec: the miter, outputs pairwise XOR; no value on mismatched arity.\<close>

definition network_miter :: "network \<Rightarrow> network \<Rightarrow> network option" where
  "network_miter a b =
     (if inputs a = inputs b \<and> length (outputs a) = length (outputs b)
      then Some \<lparr>inputs = inputs a, outputs = map2 Xor_gate (outputs a) (outputs b)\<rparr>
      else None)"

text \<open>Modelled from the spec: the collaborators of the entry point for this network type.\<close>

definition network_ops :: "network collaborators" where
  "network_ops =
     \<lparr>num_pis = inputs,
      num_gates = (\<lambda>ntk. of_nat (sum_list (map gate_count (outputs ntk)))),
      simulate = (\<lambda>ntk ps. map (evaluate ps) (outputs ntk)),
      miter = network_miter\<rparr>"

text \<open>The networks of the specification's scenarios: \<open>a AND b\<close>, \<open>a OR b\<close>, and 41 inputs.\<close>

definition and2 :: network where
  "and2 = \<lparr>inputs = 2, outputs = [And_gate (Input 0) (Input 1)]\<rparr>"

definition or2 :: network where
  "or2 = \<lparr>inputs = 2,
     outputs = [Inverted (And_gate (Inverted (Input 0)) (Inverted (Input 1)))]\<rparr>"

definition wide41 :: network where
  "wide41 = \<lparr>inputs = 41, outputs = [Input 40]\<rparr>"

definition and2_or2_miter :: network where
  "and2_or2_miter = \<lparr>inputs = 2,
     outputs = [Xor_gate (And_gate (Input 0) (Input 1))
                  (Inverted (And_gate (Inverted (Input 0)) (Inverted (Input 1))))]\<rparr>"

definition and2_miter :: network where
  "and2_miter = \<lparr>inputs = 2,
     outputs = [Xor_gate (And_gate (Input 0) (Input 1)) (And_gate (Input 0) (Input 1))]\<rparr>"

definition and3 :: network where
  "and3 = \<lparr>inputs = 3, outputs = [And_gate (Input 0) (And_gate (Input 1) (Input 2))]\<rparr>"

text \<open>
  The memory footprint as the specification words it, over unbounded naturals:
  \<open>(32 + 2^(split_var - 3)) * V\<close> bytes.
\<close>

definition spec_footprint :: "nat \<Rightarrow> nat \<Rightarrow> nat" where
  "spec_footprint s V = (32 + 2 ^ (s - 3)) * V"

section \<open>Properties of the SplitPlanner\<close>

subsection \<open>The search loop only moves upward and is monotone in the input count\<close>


lemma split_loop_ge: "split_loop n V m = Some r \<Longrightarrow> m \<le> r"
proof (induction n V m rule: split_loop.induct)
  case (1 n V m)
  show ?case
  proof (cases "m \<le> n")
    case False
    with "1.prems" show ?thesis by (simp add: split_loop.simps)
  next
    case True
    from "1.prems" True obtain p where p: "shl1 (m - 3) = Some p"
      by (auto simp: split_loop.simps [of n V m] split: option.splits)
    show ?thesis
    proof (cases "(32 + p) * V \<le> 2 ^ 29")
      case False
      with "1.prems" True p show ?thesis by (simp add: split_loop.simps [of n V m])
    next
      case b: True
      with "1.prems" True p have "split_loop n V (m + 1) = Some r"
        by (simp add: split_loop.simps [of n V m])
      with "1.IH" True p b have "m + 1 \<le> r" by simp
      moreover from p have "unat (m + 1) = Suc (unat m)"
        by (simp add: shl1_sub3_SomeD unat_Suc_small)
      ultimately show ?thesis by (simp add: word_le_nat_alt)
    qed
  qed
qed

lemma split_loop_mono:
  "n \<le> n' \<Longrightarrow> split_loop n' V m = Some b \<Longrightarrow> \<exists>a. split_loop n V m = Some a \<and> a \<le> b"
proof (induction n' V m rule: split_loop.induct)
  case (1 n' V m)
  show ?case
  proof (cases "m \<le> n")
    case False
    then have "split_loop n V m = Some m" by (simp add: split_loop.simps)
    with split_loop_ge [OF "1.prems"(2)] show ?thesis by simp
  next
    case True
    with "1.prems"(1) have mn': "m \<le> n'" by simp
    from "1.prems"(2) mn' obtain p where p: "shl1 (m - 3) = Some p"
      by (auto simp: split_loop.simps [of n' V m] split: option.splits)
    show ?thesis
    proof (cases "(32 + p) * V \<le> 2 ^ 29")
      case False
      with "1.prems"(2) mn' p have "b = m" by (simp add: split_loop.simps [of n' V m])
      moreover from False True p have "split_loop n V m = Some m"
        by (simp add: split_loop.simps [of n V m])
      ultimately show ?thesis by simp
    next
      case ok: True
      with "1.prems"(2) mn' p have "split_loop n' V (m + 1) = Some b"
        by (simp add: split_loop.simps [of n' V m])
      with "1.IH" mn' p ok "1.prems"(1)
      obtain a where "split_loop n V (m + 1) = Some a" "a \<le> b" by auto
      with True p ok show ?thesis by (simp add: split_loop.simps [of n V m])
    qed
  qed
qed

lemma compute_split_var_mono:
  assumes "n \<le> n'" and "compute_split_var n' V = Some b"
  shows "\<exists>a. compute_split_var n V = Some a \<and> a \<le> b"
proof (cases "n' \<le> 6")
  case True
  with assms show ?thesis by (auto simp: compute_split_var_def)
next
  case False
  with assms(2) obtain r' where r': "split_loop n' V 7 = Some r'" "b = r' - 1"
    by (auto simp: compute_split_var_def)
  from split_loop_ge [OF r'(1)] have r'7: "7 \<le> unat r'" by (simp add: word_le_nat_alt)
  then have ub: "unat b = unat r' - 1" using r'(2) by (simp add: unat_sub_if')
  show ?thesis
  proof (cases "n \<le> 6")
    case True
    then have "unat n \<le> 6" by (simp add: word_le_nat_alt)
    with ub r'7 have "n \<le> b" by (simp add: word_le_nat_alt)
    with True show ?thesis by (simp add: compute_split_var_def)
  next
    case n6: False
    from split_loop_mono [OF assms(1) r'(1)] obtain r where r: "split_loop n V 7 = Some r" "r \<le> r'"
      by auto
    from split_loop_ge [OF r(1)] have "7 \<le> unat r" by (simp add: word_le_nat_alt)
    then have "unat (r - 1) = unat r - 1" by (simp add: unat_sub_if')
    with ub r(2) have "r - 1 \<le> b" by (simp add: word_le_nat_alt)
    with n6 r(1) show ?thesis by (simp add: compute_split_var_def)
  qed
qed


lemma split_loop_defined:
  "unat n \<le> 34 \<Longrightarrow> 3 \<le> unat m \<Longrightarrow> \<exists>r. split_loop n V m = Some r"
proof (induction n V m rule: split_loop.induct)
  case (1 n V m)
  show ?case
  proof (cases "m \<le> n")
    case False
    then show ?thesis by (simp add: split_loop.simps)
  next
    case True
    with "1.prems" have m34: "unat m \<le> 34" by (simp add: word_le_nat_alt)
    with "1.prems" have p: "shl1 (m - 3) = Some (push_bit (unat m - 3) 1)"
      by (simp add: shl1_def unat_sub_if')
    from m34 "1.prems" have "3 \<le> unat (m + 1)" by (simp add: unat_Suc_small)
    with "1.IH" [OF True p] "1.prems" True p show ?thesis
      by (simp add: split_loop.simps [of n V m])
  qed
qed

lemma compute_split_var_defined:
  "unat n \<le> 34 \<Longrightarrow> \<exists>r. compute_split_var n V = Some r"
  using split_loop_defined [of n 7 V] by (auto simp: compute_split_var_def)

text \<open>
  Claim C7. For a fixed gate count \<open>V\<close>, \<open>compute_split_var\<close> is non-decreasing in the
  input count: whenever the call for the larger count \<open>n'\<close> has a value \<open>b\<close>, the call
  for every smaller count \<open>n\<close> has a value too, and that value is at most \<open>b\<close>. For
  \<open>n \<le> 6\<close> the split variable is \<open>n\<close> itself and the round count is 1.
\<close>

theorem compute_split_var_monotone:
  "(n \<le> n' \<longrightarrow> compute_split_var n' V = Some b \<longrightarrow>
      (\<exists>a. compute_split_var n V = Some a \<and> a \<le> b)) \<and>
   (n \<le> 6 \<longrightarrow> compute_split_var n V = Some n \<and> compute_round n n = Some 1)"
  using compute_split_var_mono [of n n' V b]
  by (simp add: compute_split_var_def compute_round_def shl1_def)

theorem compute_split_var_monotone_witness:
  "(7::u32) \<le> 40 \<and> compute_split_var 40 (2 ^ 23) = Some 8 \<and>
   (\<exists>a. compute_split_var 7 (2 ^ 23) = Some a \<and> a \<le> 8) \<and>
   (3::u32) \<le> 6 \<and> compute_split_var 3 (2 ^ 23) = Some 3 \<and> compute_round 3 3 = Some 1"
proof -
  have h: "compute_split_var 40 (2 ^ 23) = Some 8"
    by (simp add: compute_split_var_def split_loop.simps shl1_def)
  from compute_split_var_monotone [of 7 40 "2 ^ 23" 8] h
  have "\<exists>a. compute_split_var 7 (2 ^ 23) = Some a \<and> a \<le> 8" by simp
  moreover from compute_split_var_monotone [of 3 3 "2 ^ 23" 3]
  have "compute_split_var 3 (2 ^ 23) = Some 3 \<and> compute_round 3 3 = Some 1" by simp
  ultimately show ?thesis using h by simp
qed

subsection \<open>The search loop against the memory budget of the specification\<close>


lemma unat_pow2: "k < 32 \<Longrightarrow> unat ((2::u32) ^ k) = 2 ^ k"
proof -
  assume k: "k < 32"
  have "(2::u32) ^ k = word_of_nat (2 ^ k)" by simp
  then have "unat ((2::u32) ^ k) = 2 ^ k mod 2 ^ 32" by (simp only: unat_of_nat) simp
  moreover have "(2::nat) ^ k < 2 ^ 32" using k by (intro power_strict_increasing) simp_all
  ultimately show ?thesis by simp
qed

lemma unat_budget:
  assumes "3 \<le> unat m" "unat m < 35"
  shows "unat ((32 + (2::u32) ^ (unat m - 3)) * V) = spec_footprint (unat m) (unat V) mod 2 ^ 32"
proof -
  from assms have k: "unat m - 3 < 32" by simp
  then have "unat ((2::u32) ^ (unat m - 3)) = 2 ^ (unat m - 3)" by (rule unat_pow2)
  moreover have "(2::nat) ^ (unat m - 3) \<le> 2 ^ 31"
    using k by (intro power_increasing) simp_all
  ultimately have "unat (32 + (2::u32) ^ (unat m - 3)) = 32 + 2 ^ (unat m - 3)"
    by (simp add: unat_word_ariths)
  then show ?thesis by (simp add: unat_word_ariths spec_footprint_def mod_mult_left_eq)
qed

lemma spec_footprint_double:
  "7 < s \<Longrightarrow> spec_footprint s V \<le> 2 * spec_footprint (s - 1) V"
proof -
  assume "7 < s"
  then have "s - 3 = Suc (s - 1 - 3)" by simp
  then have "(2::nat) ^ (s - 3) = 2 * 2 ^ (s - 1 - 3)" by simp
  then show ?thesis by (simp add: spec_footprint_def algebra_simps)
qed

lemma spec_footprint_large:
  assumes "34 \<le> s" "0 < V" shows "2 ^ 29 < spec_footprint s V"
proof -
  have "(2::nat) ^ 31 \<le> 2 ^ (s - 3)" using assms(1) by (intro power_increasing) simp_all
  then have "(2::nat) ^ 31 \<le> (32 + 2 ^ (s - 3)) * 1" by simp
  also have "\<dots> \<le> (32 + 2 ^ (s - 3)) * V" using assms(2) by (intro mult_le_mono2) simp
  finally show ?thesis by (simp add: spec_footprint_def)
qed

lemma split_loop_budget:
  "7 \<le> unat m \<Longrightarrow> unat m \<le> unat n + 1 \<Longrightarrow> V \<noteq> 0 \<or> unat n \<le> 34 \<Longrightarrow>
   (unat m = 7 \<and> 48 * unat V < 2 ^ 32) \<or>
     (7 < unat m \<and> spec_footprint (unat m - 1) (unat V) \<le> 2 ^ 29) \<Longrightarrow>
   \<exists>r. split_loop n V m = Some r \<and> unat m \<le> unat r \<and> unat r \<le> unat n + 1 \<and>
       (\<forall>s. unat m \<le> s \<and> s < unat r \<longrightarrow> spec_footprint s (unat V) \<le> 2 ^ 29) \<and>
       (unat r \<le> unat n \<longrightarrow> 2 ^ 29 < spec_footprint (unat r) (unat V))"
proof (induction n V m rule: split_loop.induct)
  case (1 n V m)
  let ?fp = "\<lambda>s. spec_footprint s (unat V)"
  show ?case
  proof (cases "m \<le> n")
    case False
    then have "split_loop n V m = Some m" by (simp add: split_loop.simps)
    moreover from False have "\<not> unat m \<le> unat n" by (simp add: word_le_nat_alt)
    ultimately show ?thesis using "1.prems"(2) by simp
  next
    case True
    then have mn: "unat m \<le> unat n" by (simp add: word_le_nat_alt)
    have m35: "unat m < 35"
    proof (cases "V = 0")
      case True
      with "1.prems"(3) mn show ?thesis by simp
    next
      case False
      then have V0: "0 < unat V" by (simp add: unat_gt_0)
      show ?thesis
      proof (rule ccontr)
        assume "\<not> unat m < 35"
        then have "34 \<le> unat m - 1" by simp
        from spec_footprint_large [OF this V0] "1.prems"(4) \<open>\<not> unat m < 35\<close>
        show False by simp
      qed
    qed
    with "1.prems"(1) have p: "shl1 (m - 3) = Some (2 ^ (unat m - 3))"
      by (simp add: shl1_def unat_sub_if' push_bit_eq_mult)
    have exact: "?fp (unat m) < 2 ^ 32"
    proof (cases "unat m = 7")
      case True
      with "1.prems"(4) show ?thesis by (simp add: spec_footprint_def)
    next
      case False
      with "1.prems"(1,4) have "7 < unat m" "?fp (unat m - 1) \<le> 2 ^ 29" by auto
      with spec_footprint_double [of "unat m" "unat V"] show ?thesis by simp
    qed
    from "1.prems"(1) m35 have "unat ((32 + 2 ^ (unat m - 3)) * V) = ?fp (unat m) mod 2 ^ 32"
      by (intro unat_budget) simp_all
    with exact have test: "(32 + 2 ^ (unat m - 3)) * V \<le> 2 ^ 29 \<longleftrightarrow> ?fp (unat m) \<le> 2 ^ 29"
      by (simp add: word_le_nat_alt)
    show ?thesis
    proof (cases "?fp (unat m) \<le> 2 ^ 29")
      case False
      with test True p have "split_loop n V m = Some m" by (simp add: split_loop.simps [of n V m])
      with False "1.prems"(2) show ?thesis by simp
    next
      case ok: True
      from m35 have suc: "unat (m + 1) = Suc (unat m)" by (rule unat_Suc_small)
      from ok test True p have step: "split_loop n V m = split_loop n V (m + 1)"
        by (simp add: split_loop.simps [of n V m])
      from ok test have t: "(32 + 2 ^ (unat m - 3)) * V \<le> 2 ^ 29" by simp
      have "\<exists>r. split_loop n V (m + 1) = Some r \<and> unat (m + 1) \<le> unat r \<and> unat r \<le> unat n + 1 \<and>
         (\<forall>s. unat (m + 1) \<le> s \<and> s < unat r \<longrightarrow> ?fp s \<le> 2 ^ 29) \<and>
         (unat r \<le> unat n \<longrightarrow> 2 ^ 29 < ?fp (unat r))"
        using "1.prems"(1,3) mn ok suc by (intro "1.IH" [OF True p t]) simp_all
      then obtain r where r: "split_loop n V (m + 1) = Some r" "unat (m + 1) \<le> unat r"
        "unat r \<le> unat n + 1" "\<forall>s. unat (m + 1) \<le> s \<and> s < unat r \<longrightarrow> ?fp s \<le> 2 ^ 29"
        "unat r \<le> unat n \<longrightarrow> 2 ^ 29 < ?fp (unat r)" by blast
      have "\<forall>s. unat m \<le> s \<and> s < unat r \<longrightarrow> ?fp s \<le> 2 ^ 29"
      proof (intro allI impI)
        fix s assume s: "unat m \<le> s \<and> s < unat r"
        show "?fp s \<le> 2 ^ 29"
        proof (cases "s = unat m")
          case True with ok show ?thesis by simp
        next
          case False
          with s suc have "unat (m + 1) \<le> s \<and> s < unat r" by simp
          with r(4) show ?thesis by blast
        qed
      qed
      with r step suc show ?thesis by simp
    qed
  qed
qed

lemma compute_split_var_in_budget:
  assumes "6 < n" and "48 * unat V < 2 ^ 32" and "V \<noteq> 0 \<or> unat n \<le> 34"
  shows "\<exists>r. compute_split_var n V = Some r \<and> 6 \<le> unat r \<and> unat r \<le> unat n \<and>
           (\<forall>s. 7 \<le> s \<and> s \<le> unat r \<longrightarrow> spec_footprint s (unat V) \<le> 2 ^ 29) \<and>
           (unat r < unat n \<longrightarrow> 2 ^ 29 < spec_footprint (unat r + 1) (unat V))"
proof -
  from assms(1) have n7: "7 \<le> unat n" by (simp add: word_less_nat_alt)
  have "\<exists>r. split_loop n V 7 = Some r \<and> unat (7::u32) \<le> unat r \<and> unat r \<le> unat n + 1 \<and>
       (\<forall>s. unat (7::u32) \<le> s \<and> s < unat r \<longrightarrow> spec_footprint s (unat V) \<le> 2 ^ 29) \<and>
       (unat r \<le> unat n \<longrightarrow> 2 ^ 29 < spec_footprint (unat r) (unat V))"
    using n7 assms(2,3) by (intro split_loop_budget) simp_all
  then obtain r' where r': "split_loop n V 7 = Some r'" "7 \<le> unat r'" "unat r' \<le> unat n + 1"
    "\<forall>s. 7 \<le> s \<and> s < unat r' \<longrightarrow> spec_footprint s (unat V) \<le> 2 ^ 29"
    "unat r' \<le> unat n \<longrightarrow> 2 ^ 29 < spec_footprint (unat r') (unat V)"
    by auto
  from r'(2) have u: "unat (r' - 1) = unat r' - 1" by (simp add: unat_sub_if')
  from assms(1) r'(1) have "compute_split_var n V = Some (r' - 1)"
    by (simp add: compute_split_var_def not_le [symmetric])
  moreover from u r'(2,3) have "6 \<le> unat (r' - 1)" "unat (r' - 1) \<le> unat n" by simp_all
  moreover from u r'(2,4)
  have "\<forall>s. 7 \<le> s \<and> s \<le> unat (r' - 1) \<longrightarrow> spec_footprint s (unat V) \<le> 2 ^ 29" by auto
  moreover from u r'(2,5)
  have "unat (r' - 1) < unat n \<longrightarrow> 2 ^ 29 < spec_footprint (unat (r' - 1) + 1) (unat V)" by auto
  ultimately show ?thesis by blast
qed

lemma split_loop_le:
  "split_loop n V m = Some r \<Longrightarrow> unat m \<le> unat n + 1 \<Longrightarrow> unat r \<le> unat n + 1"
proof (induction n V m rule: split_loop.induct)
  case (1 n V m)
  show ?case
  proof (cases "m \<le> n")
    case False
    with "1.prems" show ?thesis by (simp add: split_loop.simps)
  next
    case True
    from "1.prems"(1) True obtain p where p: "shl1 (m - 3) = Some p"
      by (auto simp: split_loop.simps [of n V m] split: option.splits)
    show ?thesis
    proof (cases "(32 + p) * V \<le> 2 ^ 29")
      case False
      with "1.prems" True p show ?thesis by (simp add: split_loop.simps [of n V m])
    next
      case ok: True
      with "1.prems"(1) True p have "split_loop n V (m + 1) = Some r"
        by (simp add: split_loop.simps [of n V m])
      moreover from p True have "unat (m + 1) \<le> unat n + 1"
        by (simp add: shl1_sub3_SomeD unat_Suc_small word_le_nat_alt)
      ultimately show ?thesis using "1.IH" [OF True p ok] by simp
    qed
  qed
qed

lemma compute_split_var_le: "compute_split_var n V = Some r \<Longrightarrow> r \<le> n"
proof (cases "n \<le> 6")
  case True
  assume "compute_split_var n V = Some r"
  with True show ?thesis by (simp add: compute_split_var_def)
next
  case False
  assume "compute_split_var n V = Some r"
  with False obtain r' where r': "split_loop n V 7 = Some r'" "r = r' - 1"
    by (auto simp: compute_split_var_def)
  from False have "7 \<le> unat n" by (simp add: word_le_nat_alt)
  with split_loop_le [OF r'(1)] have "unat r' \<le> unat n + 1" by simp
  moreover from split_loop_ge [OF r'(1)] have "7 \<le> unat r'" by (simp add: word_le_nat_alt)
  ultimately show ?thesis using r'(2) by (simp add: word_le_nat_alt unat_sub_if')
qed

text \<open>
  Where the first budget product does not wrap around (\<open>48 * V < 2^32\<close>) and the
  search cannot reach a shift by 32 bits (\<open>V \<noteq> 0\<close> or \<open>n \<le> 34\<close>), the search follows the
  budget of the specification: for \<open>n > 6\<close> the result \<open>r\<close> lies between 6 and \<open>n\<close>,
  every candidate from 7 up to \<open>r\<close> satisfies \<open>(32 + 2^(s-3)) * V \<le> 2^29\<close> over the
  naturals, and, unless \<open>r = n\<close>, the next candidate \<open>r + 1\<close> violates it. Whenever the
  function returns at all, the value never exceeds \<open>n\<close>.
\<close>

lemma compute_split_var_follows_budget:
  "(compute_split_var n V = Some r \<longrightarrow> r \<le> n) \<and>
   (6 < n \<longrightarrow> 48 * unat V < 2 ^ 32 \<longrightarrow> V \<noteq> 0 \<or> unat n \<le> 34 \<longrightarrow>
     (\<exists>r. compute_split_var n V = Some r \<and> 6 \<le> unat r \<and> unat r \<le> unat n \<and>
        (\<forall>s. 7 \<le> s \<and> s \<le> unat r \<longrightarrow> spec_footprint s (unat V) \<le> 2 ^ 29) \<and>
        (unat r < unat n \<longrightarrow> 2 ^ 29 < spec_footprint (unat r + 1) (unat V))))"
  using compute_split_var_le [of n V r] compute_split_var_in_budget [of n V] by blast

text \<open>
  Claim C5 at \<open>n = 7\<close>, \<open>V = 2^28\<close>. The claim has the search stop at the first candidate
  whose footprint \<open>(32 + 2^(split_var-3)) * V\<close> exceeds \<open>2^29\<close> and return the candidate
  before it; here already candidate 7 is over the budget, so the claim asks for 6.
  In the source the 32-bit product \<open>48 * V\<close> wraps around to 0, the test passes, and
  7 is returned.
\<close>

theorem compute_split_var_wraps:
  "(6::u32) < 7 \<and> compute_split_var 7 (2 ^ 28) = Some 7 \<and>
   \<not> spec_footprint 7 (unat (2 ^ 28 :: u32)) \<le> 2 ^ 29"
  by (simp add: compute_split_var_def split_loop.simps shl1_def spec_footprint_def)

subsection \<open>Round count and round coverage\<close>


lemma pi_value_bit:
  assumes "j < 32"
  shows "pi_value \<lparr>psim_split_var = sp, psim_round = rnd\<rparr> (sp + of_nat j) = bit rnd j"
proof -
  from assms have "unat (word_of_nat j :: u32) = j" by (simp add: unat_of_nat)
  then show ?thesis
    by (simp add: pi_value_def and_one_eq bit_iff_odd_drop_bit odd_iff_mod_2_eq_one)
qed

lemma round_assignment_bits:
  "unat n - unat sp \<le> 32 \<Longrightarrow> round_assignment n sp rnd = map (bit rnd) [0..<unat n - unat sp]"
  by (simp add: round_assignment_def pi_value_bit)

lemma bit_below_pow2:
  fixes i :: u32
  assumes "i < 2 ^ k" "k \<le> j"
  shows "\<not> bit i j"
proof -
  from assms(1) have "i AND mask k = i" by (rule less_mask_eq)
  then have "bit i j = bit (i AND mask k) j" by simp
  with assms(2) show ?thesis by (simp add: bit_and_iff bit_mask_iff)
qed

lemma low_bits_inj:
  fixes i i' :: u32
  assumes "i < 2 ^ k" "i' < 2 ^ k" "map (bit i) [0..<k] = map (bit i') [0..<k]"
  shows "i = i'"
proof (rule bit_word_eqI)
  fix j assume "j < LENGTH(32)"
  show "bit i j = bit i' j"
  proof (cases "j < k")
    case True
    from assms(3) have "\<forall>x\<in>{0..<k}. bit i x = bit i' x" by simp
    with True show ?thesis by simp
  next
    case False
    with assms(1,2) show ?thesis by (simp add: bit_below_pow2)
  qed
qed

lemma low_bits_surj:
  assumes "length bs = k" "k < 32"
  shows "\<exists>i::u32. i < 2 ^ k \<and> map (bit i) [0..<k] = bs"
proof -
  let ?w = "horner_sum of_bool (2::u32) bs"
  have b: "bit ?w j \<longleftrightarrow> j < k \<and> bs ! j" for j
    using assms by (auto simp: bit_horner_sum_bit_word_iff)
  have "?w AND mask k = ?w"
    by (rule bit_word_eqI) (auto simp: bit_and_iff bit_mask_iff b)
  moreover have "?w AND mask k < 2 ^ k" using assms(2) by (intro and_mask_less_size) (simp add: word_size)
  ultimately have "?w < 2 ^ k" by simp
  moreover have "map (bit ?w) [0..<k] = bs"
    using assms(1) by (intro nth_equalityI) (simp_all add: b)
  ultimately show ?thesis by blast
qed

lemma compute_round_pow2:
  assumes "sp \<le> n" "unat n - unat sp < 32"
  shows "compute_round n sp = Some (2 ^ (unat n - unat sp))"
  using assms by (simp add: compute_round_def shl1_def unat_sub_if' word_le_nat_alt push_bit_eq_mult)


text \<open>
  Within \<open>split_var \<le> n\<close> and \<open>n - split_var \<le> 31\<close> the round count is
  \<open>2^(n - split_var)\<close>, and the round indices below it, read bit by bit from bit 0
  upward as \<open>compute_pi\<close> reads them, give every assignment of the non-split inputs
  exactly once: the map from round index to assignment is injective on the rounds
  and onto all assignments.
\<close>

lemma compute_round_enumerates:
  assumes "sp \<le> n" and "unat n - unat sp < 32"
  shows "\<exists>rnds. compute_round n sp = Some rnds \<and> unat rnds = 2 ^ (unat n - unat sp) \<and>
           inj_on (round_assignment n sp) {i. i < rnds} \<and>
           round_assignment n sp ` {i. i < rnds} = {bs. length bs = unat n - unat sp}"
proof -
  let ?k = "unat n - unat sp"
  let ?R = "{i::u32. i < 2 ^ ?k}"
  from assms(2) have ra: "round_assignment n sp i = map (bit i) [0..<?k]" for i
    by (simp add: round_assignment_bits)
  have "inj_on (round_assignment n sp) ?R"
    by (rule inj_onI) (auto simp: ra intro: low_bits_inj)
  moreover have "round_assignment n sp ` ?R = {bs. length bs = ?k}"
  proof (intro equalityI subsetI)
    fix bs assume "bs \<in> round_assignment n sp ` ?R"
    then show "bs \<in> {bs. length bs = ?k}" by (auto simp: ra)
  next
    fix bs :: "bool list" assume "bs \<in> {bs. length bs = ?k}"
    then have "length bs = ?k" by simp
    from low_bits_surj [OF this assms(2)]
    obtain i :: u32 where "i < 2 ^ ?k" "map (bit i) [0..<?k] = bs" by blast
    then have "i \<in> ?R" "round_assignment n sp i = bs" by (simp_all add: ra)
    then show "bs \<in> round_assignment n sp ` ?R" by blast
  qed
  moreover from assms(2) have "unat ((2::u32) ^ ?k) = 2 ^ ?k" by (rule unat_pow2)
  ultimately show ?thesis using compute_round_pow2 [OF assms] by simp
qed

text \<open>
  Claim C6 at \<open>n = 40\<close>, \<open>split_var = 8\<close>, the split variable of a miter with 40 inputs
  and \<open>2^23\<close> gates. The claim asks for \<open>2^32\<close> rounds; the source evaluates \<open>1 << 32\<close>
  on a 32-bit \<open>int\<close>, which has no defined value, and no 32-bit result can be \<open>2^32\<close>.
\<close>

theorem compute_round_shift_too_wide:
  "compute_split_var 40 (2 ^ 23) = Some 8 \<and> (8::u32) \<le> 40 \<and> compute_round 40 8 = None"
  by (simp add: compute_split_var_def split_loop.simps compute_round_def shl1_def)

section \<open>Properties of the PartialSimulator\<close>

text \<open>Unfolding rules for evaluating the definitions on concrete inputs.\<close>

lemmas table_eval = construct_zero_def complement_def create_nth_var_def is_const0_def
  table_and_def table_xor_def table_width_def

lemmas simulator_eval = compute_constant_def compute_pi_def compute_not_def pi_value_def

lemmas planner_eval = compute_split_var_def compute_round_def shl1_def split_loop.simps

lemmas cec_eval = simulation_cec_def run_def round_loop.simps default_stats_def
  network_ops_def network_miter_def and2_def or2_def and3_def wide41_def and2_or2_miter_def

text \<open>
  What \<open>compute_pi\<close> returns: the projection table for a split input; for an input
  outside the split, the constant table of the \<^emph>\<open>negated\<close> round bit.
\<close>

lemma compute_pi_inside:
  "index < psim_split_var ps \<Longrightarrow>
   compute_pi ps index =
     Some \<lparr>num_vars = unat (psim_split_var ps),
           bits = map (\<lambda>j. bit j (unat index)) [0..<2 ^ unat (psim_split_var ps)]\<rparr>"
  by (simp add: compute_pi_def construct_zero_def create_nth_var_def)

lemma compute_pi_outside:
  "\<not> index < psim_split_var ps \<Longrightarrow> unat (index - psim_split_var ps) < 32 \<Longrightarrow>
   compute_pi ps index = Some (compute_constant ps (\<not> pi_value ps index))"
  by (simp add: compute_pi_def compute_constant_def Let_def)

text \<open>
  Claim C2 at split variable 1, round 1, input 1: the input is outside the split,
  bit \<open>index - split_var = 0\<close> of the round index is 1, so the claim asks for the all-1
  table, the result of \<open>compute_constant true\<close>. The source complements the zero
  table when the bit is 0 and returns the zero table here.
\<close>

theorem compute_pi_fixed_input_inverted:
  "\<not> (1::u32) < 1 \<and>
   pi_value \<lparr>psim_split_var = 1, psim_round = 1\<rparr> 1 = True \<and>
   compute_pi \<lparr>psim_split_var = 1, psim_round = 1\<rparr> 1 = Some \<lparr>num_vars = 1, bits = [False, False]\<rparr> \<and>
   compute_constant \<lparr>psim_split_var = 1, psim_round = 1\<rparr> True = \<lparr>num_vars = 1, bits = [True, True]\<rparr>"
  by (simp add: simulator_eval table_eval numeral_2_eq_2)



section \<open>Properties of the entry point and the round controller\<close>

text \<open>
  Claim C1, amended. When network 1 has at most 40 primary inputs and the miter
  construction fails, \<open>simulation_cec\<close> returns the present optional holding \<open>false\<close>,
  and a statistics object supplied by the caller receives the defaults
  \<open>split_var = 0\<close>, \<open>rounds = 0\<close>.
\<close>

theorem simulation_cec_miter_fails:
  "\<not> 40 < num_pis ops ntk1 \<Longrightarrow> miter ops ntk1 ntk2 = None \<Longrightarrow>
   simulation_cec ops ntk1 ntk2 pst = Some (Some False, map_option (\<lambda>_. default_stats) pst)"
  by (simp add: simulation_cec_def)

theorem simulation_cec_miter_fails_witness:
  "\<not> 40 < num_pis network_ops and2 \<and> miter network_ops and2 and3 = None \<and>
   simulation_cec network_ops and2 and3 (Some \<lparr>split_var = 9, rounds = 9\<rparr>) =
     Some (Some False, Some \<lparr>split_var = 0, rounds = 0\<rparr>)"
proof -
  have h: "\<not> 40 < num_pis network_ops and2" "miter network_ops and2 and3 = None"
    by (simp_all add: network_ops_def network_miter_def and2_def and3_def)
  from simulation_cec_miter_fails [OF h, of "Some \<lparr>split_var = 9, rounds = 9\<rparr>"] h
  show ?thesis by (simp add: default_stats_def)
qed

text \<open>
  Claim C1 as stated fails: for the 2-input and the 3-input AND network the miter
  cannot be built, and the result is the present value \<open>false\<close>, not the absent optional.
\<close>

theorem simulation_cec_miter_fails_not_absent:
  "\<not> 40 < num_pis network_ops and2 \<and> miter network_ops and2 and3 = None \<and>
   simulation_cec network_ops and2 and3 None = Some (Some False, None)"
  by (simp add: simulation_cec_def network_ops_def network_miter_def and2_def and3_def)

text \<open>
  Claim C4. When network 1 has more than 40 primary inputs, \<open>simulation_cec\<close> returns
  the absent optional whatever the second network is, and the statistics object of
  the caller keeps the contents it had.
\<close>

theorem simulation_cec_bound:
  "40 < num_pis ops ntk1 \<Longrightarrow> simulation_cec ops ntk1 ntk2 pst = Some (None, pst)"
  by (simp add: simulation_cec_def)

theorem simulation_cec_bound_witness:
  "40 < num_pis network_ops wide41 \<and>
   simulation_cec network_ops wide41 and3 (Some \<lparr>split_var = 9, rounds = 9\<rparr>) =
     Some (None, Some \<lparr>split_var = 9, rounds = 9\<rparr>)"
proof -
  have h: "40 < num_pis network_ops wide41" by (simp add: network_ops_def wide41_def)
  from simulation_cec_bound [OF h] h show ?thesis by simp
qed

text \<open>
  Claim C8. Whenever \<open>run\<close> returns, with either verdict and after any number of
  rounds, the statistics object holds the computed split variable and round count;
  and when the miter was built, \<open>simulation_cec\<close> hands exactly these statistics to
  the statistics object of the caller.
\<close>

theorem run_records_statistics:
  "(run ops ntk st = Some (res, st', passes) \<longrightarrow>
      (\<exists>sp rnds. compute_split_var (num_pis ops ntk) (num_gates ops ntk) = Some sp \<and>
         compute_round (num_pis ops ntk) sp = Some rnds \<and>
         st' = st\<lparr>split_var := sp, rounds := rnds\<rparr>)) \<and>
   (\<not> 40 < num_pis ops ntk1 \<longrightarrow> miter ops ntk1 ntk2 = Some m \<longrightarrow>
      run ops m default_stats = Some (res, st', passes) \<longrightarrow>
      simulation_cec ops ntk1 ntk2 (Some s) = Some (Some res, Some st'))"
  by (auto simp: run_def simulation_cec_def Let_def split: option.splits prod.splits)


theorem run_records_statistics_witness:
  "\<not> 40 < num_pis network_ops and2 \<and> miter network_ops and2 or2 = Some and2_or2_miter \<and>
   run network_ops and2_or2_miter default_stats =
     Some (False, \<lparr>split_var = 2, rounds = 1\<rparr>, [0]) \<and>
   compute_split_var (num_pis network_ops and2_or2_miter) (num_gates network_ops and2_or2_miter) = Some 2 \<and>
   compute_round (num_pis network_ops and2_or2_miter) 2 = Some 1 \<and>
   simulation_cec network_ops and2 or2 (Some \<lparr>split_var = 9, rounds = 9\<rparr>) =
     Some (Some False, Some \<lparr>split_var = 2, rounds = 1\<rparr>)"
proof -
  have h: "\<not> 40 < num_pis network_ops and2" "miter network_ops and2 or2 = Some and2_or2_miter"
    by (simp_all add: cec_eval)
  have r: "run network_ops and2_or2_miter default_stats =
     Some (False, \<lparr>split_var = 2, rounds = 1\<rparr>, [0])"
    by (simp add: cec_eval planner_eval simulator_eval table_eval bit_iff_odd upt_rec)
  have p: "compute_split_var (num_pis network_ops and2_or2_miter) (num_gates network_ops and2_or2_miter) = Some 2"
    "compute_round (num_pis network_ops and2_or2_miter) 2 = Some 1"
    by (simp_all add: cec_eval planner_eval)
  from run_records_statistics [of network_ops and2_or2_miter default_stats False
      "\<lparr>split_var = 2, rounds = 1\<rparr>" "[0]" and2 or2 and2_or2_miter "\<lparr>split_var = 9, rounds = 9\<rparr>"] h r
  have "simulation_cec network_ops and2 or2 (Some \<lparr>split_var = 9, rounds = 9\<rparr>) =
     Some (Some False, Some \<lparr>split_var = 2, rounds = 1\<rparr>)" by simp
  with h r p show ?thesis by simp
qed

subsection \<open>The round loop\<close>

lemma check_outputs_iff: "check_outputs tts \<longleftrightarrow> (\<forall>t\<in>set tts. is_const0 t)"
  by (induction tts) auto

lemma round_loop_spec:
  "round_loop sim sp rnds i = (res, passes) \<Longrightarrow>
   (res \<longleftrightarrow> (\<forall>j. i \<le> j \<and> j < rnds \<longrightarrow> check_outputs (sim \<lparr>psim_split_var = sp, psim_round = j\<rparr>))) \<and>
   (res \<longrightarrow> passes = map of_nat [unat i..<unat rnds]) \<and>
   (\<not> res \<longrightarrow> (\<exists>k. i \<le> k \<and> k < rnds \<and>
       \<not> check_outputs (sim \<lparr>psim_split_var = sp, psim_round = k\<rparr>) \<and>
       (\<forall>j. i \<le> j \<and> j < k \<longrightarrow> check_outputs (sim \<lparr>psim_split_var = sp, psim_round = j\<rparr>)) \<and>
       passes = map of_nat [unat i..<Suc (unat k)]))"
proof (induction sim sp rnds i arbitrary: res passes rule: round_loop.induct)
  case (1 sim sp rnds i)
  let ?ok = "\<lambda>j. check_outputs (sim \<lparr>psim_split_var = sp, psim_round = j\<rparr>)"
  show ?case
  proof (cases "i < rnds")
    case False
    with "1.prems" have "res" "passes = []" by (simp_all add: round_loop.simps [of sim sp rnds i])
    moreover from False have "unat rnds \<le> unat i" by (simp add: word_less_nat_alt)
    ultimately show ?thesis using False by auto
  next
    case True
    then have suc: "unat (i + 1) = Suc (unat i)" by (rule unat_Suc_less)
    have step: "i \<le> j \<longleftrightarrow> j = i \<or> i + 1 \<le> j" for j
      using suc by (auto simp: word_le_nat_alt word_unat_eq_iff)
    have hd: "word_of_nat (unat i) = i" by simp
    show ?thesis
    proof (cases "?ok i")
      case False
      with "1.prems" True have "\<not> res" "passes = [i]"
        by (simp_all add: round_loop.simps [of sim sp rnds i])
      moreover have "\<forall>j. i \<le> j \<and> j < i \<longrightarrow> ?ok j" by auto
      ultimately show ?thesis using False True
        by (intro conjI impI) (auto intro!: exI [of _ i])
    next
      case ok: True
      obtain res' passes' where rec: "round_loop sim sp rnds (i + 1) = (res', passes')"
        by (cases "round_loop sim sp rnds (i + 1)")
      with "1.prems" True ok have eq: "res = res'" "passes = i # passes'"
        by (simp_all add: round_loop.simps [of sim sp rnds i])
      note IH = "1.IH" [OF True refl refl ok rec]
      from True have lt: "unat i < unat rnds" by (simp add: word_less_nat_alt)
      have a: "res \<longleftrightarrow> (\<forall>j. i \<le> j \<and> j < rnds \<longrightarrow> ?ok j)"
        using IH ok eq(1) True by (auto simp: step)
      have b: "res \<longrightarrow> passes = map of_nat [unat i..<unat rnds]"
        using IH eq lt suc by (simp add: upt_conv_Cons)
      have c: "\<not> res \<longrightarrow> (\<exists>k. i \<le> k \<and> k < rnds \<and> \<not> ?ok k \<and>
         (\<forall>j. i \<le> j \<and> j < k \<longrightarrow> ?ok j) \<and> passes = map of_nat [unat i..<Suc (unat k)])"
      proof
        assume "\<not> res"
        with IH eq(1) obtain k where k: "i + 1 \<le> k" "k < rnds" "\<not> ?ok k"
          "\<forall>j. i + 1 \<le> j \<and> j < k \<longrightarrow> ?ok j" "passes' = map of_nat [unat (i + 1)..<Suc (unat k)]"
          by blast
        from k(1) suc have ik: "unat i < unat k" by (simp add: word_le_nat_alt)
        then have "i \<le> k" by (simp add: word_le_nat_alt)
        moreover have "\<forall>j. i \<le> j \<and> j < k \<longrightarrow> ?ok j" using k(4) ok by (auto simp: step)
        moreover have "passes = map of_nat [unat i..<Suc (unat k)]"
          using eq(2) k(5) suc ik by (simp add: upt_conv_Cons)
        ultimately show "\<exists>k. i \<le> k \<and> k < rnds \<and> \<not> ?ok k \<and>
         (\<forall>j. i \<le> j \<and> j < k \<longrightarrow> ?ok j) \<and> passes = map of_nat [unat i..<Suc (unat k)]"
          using k(2,3) by blast
      qed
      from a b c show ?thesis by blast
    qed
  qed
qed

text \<open>
  Claim C3. Once the planner has produced the split variable and the round count,
  \<open>run\<close> returns; it returns \<open>false\<close> exactly when some round below the round count
  has an output table that is not identically zero, and \<open>true\<close> exactly when every
  output table of every round is all-zero. On \<open>false\<close> the evaluator has been invoked
  for the rounds \<open>0, \<dots>, k\<close> only, where \<open>k\<close> is the first round with a nonzero output
  table; on \<open>true\<close> it has been invoked for every round once, in order.
\<close>

theorem run_verdict:
  assumes "compute_split_var (num_pis ops ntk) (num_gates ops ntk) = Some sp"
    and "compute_round (num_pis ops ntk) sp = Some rnds"
  shows "\<exists>res st' passes. run ops ntk st = Some (res, st', passes) \<and>
    (res = False \<longleftrightarrow>
       (\<exists>i<rnds. \<exists>t\<in>set (simulate ops ntk \<lparr>psim_split_var = sp, psim_round = i\<rparr>). \<not> is_const0 t)) \<and>
    (res = True \<longleftrightarrow>
       (\<forall>i<rnds. \<forall>t\<in>set (simulate ops ntk \<lparr>psim_split_var = sp, psim_round = i\<rparr>). is_const0 t)) \<and>
    (res = False \<longrightarrow>
       (\<exists>k<rnds.
          (\<exists>t\<in>set (simulate ops ntk \<lparr>psim_split_var = sp, psim_round = k\<rparr>). \<not> is_const0 t) \<and>
          (\<forall>i<k. \<forall>t\<in>set (simulate ops ntk \<lparr>psim_split_var = sp, psim_round = i\<rparr>). is_const0 t) \<and>
          passes = map of_nat [0..<Suc (unat k)])) \<and>
    (res = True \<longrightarrow> passes = map of_nat [0..<unat rnds])"
proof -
  obtain res passes where rl: "round_loop (simulate ops ntk) sp rnds 0 = (res, passes)"
    by (cases "round_loop (simulate ops ntk) sp rnds 0")
  with assms have "run ops ntk st = Some (res, st\<lparr>split_var := sp, rounds := rnds\<rparr>, passes)"
    by (simp add: run_def)
  moreover note round_loop_spec [OF rl]
  ultimately show ?thesis
    by (simp add: check_outputs_iff)
qed

theorem run_verdict_witness:
  "compute_split_var (num_pis network_ops and2_or2_miter) (num_gates network_ops and2_or2_miter) = Some 2 \<and>
   compute_round (num_pis network_ops and2_or2_miter) 2 = Some 1 \<and>
   run network_ops and2_or2_miter default_stats = Some (False, \<lparr>split_var = 2, rounds = 1\<rparr>, [0]) \<and>
   \<not> check_outputs (simulate network_ops and2_or2_miter \<lparr>psim_split_var = 2, psim_round = 0\<rparr>)"
proof -
  have p: "compute_split_var (num_pis network_ops and2_or2_miter) (num_gates network_ops and2_or2_miter) = Some 2"
    "compute_round (num_pis network_ops and2_or2_miter) 2 = Some 1"
    by (simp_all add: cec_eval planner_eval)
  have r: "run network_ops and2_or2_miter default_stats =
     Some (False, \<lparr>split_var = 2, rounds = 1\<rparr>, [0])"
    by (simp add: cec_eval planner_eval simulator_eval table_eval bit_iff_odd upt_rec)
  from run_verdict [OF p, of default_stats] r
  have "\<exists>k<1. \<exists>t\<in>set (simulate network_ops and2_or2_miter \<lparr>psim_split_var = 2, psim_round = k\<rparr>). \<not> is_const0 t"
    by simp
  then have "\<exists>t\<in>set (simulate network_ops and2_or2_miter \<lparr>psim_split_var = 2, psim_round = 0\<rparr>). \<not> is_const0 t"
    by (simp add: word_less_1)
  with p r show ?thesis by (simp add: check_outputs_iff)
qed

subsection \<open>No undefined shift inside a round\<close>

text \<open>
  Once the planner has returned the split variable and the round count, \<open>compute_pi\<close>
  has a value for every primary input of the network in every round: the evaluator
  cannot run into a shift by 32 bits or more.
\<close>

lemma compute_pi_defined_in_run:
  assumes "compute_split_var n V = Some sp" and "compute_round n sp = Some rnds" and "index < n"
  shows "\<exists>t. compute_pi \<lparr>psim_split_var = sp, psim_round = i\<rparr> index = Some t"
proof (cases "index < sp")
  case True
  then show ?thesis by (simp add: compute_pi_def)
next
  case False
  from compute_split_var_le [OF assms(1)] have "unat sp \<le> unat n" by (simp add: word_le_nat_alt)
  moreover from assms(2) have "unat (n - sp) < 32"
    by (simp add: compute_round_def shl1_def split: if_splits)
  moreover from False have "unat sp \<le> unat index" by (simp add: word_less_nat_alt)
  moreover from assms(3) have "unat index < unat n" by (simp add: word_less_nat_alt)
  ultimately have "unat (index - sp) < 32" by (simp add: unat_sub_if')
  with False show ?thesis by (simp add: compute_pi_def Let_def)
qed

subsection \<open>Reflexivity\<close>

text \<open>With at most 34 primary inputs no shift of the planner reaches 32 bits.\<close>

lemma compute_split_var_ge6:
  assumes "6 < n" "compute_split_var n V = Some sp"
  shows "6 \<le> unat sp"
proof -
  from assms obtain r where r: "split_loop n V 7 = Some r" "sp = r - 1"
    by (auto simp: compute_split_var_def not_le [symmetric])
  from split_loop_ge [OF r(1)] have "7 \<le> unat r" by (simp add: word_le_nat_alt)
  with r(2) show ?thesis by (simp add: unat_sub_if')
qed

lemma planner_defined:
  assumes "unat n \<le> 34"
  shows "\<exists>sp rnds. compute_split_var n V = Some sp \<and> compute_round n sp = Some rnds"
proof -
  from compute_split_var_defined [OF assms] obtain sp where sp: "compute_split_var n V = Some sp"
    by blast
  from compute_split_var_le [OF sp] have le: "sp \<le> n" .
  then have "unat n - unat sp < 32"
  proof (cases "n \<le> 6")
    case True
    then have "unat n \<le> 6" by (simp add: word_le_nat_alt)
    then show ?thesis by simp
  next
    case False
    then have "6 < n" by simp
    from compute_split_var_ge6 [OF this sp] assms show ?thesis by simp
  qed
  with le have "compute_round n sp = Some (2 ^ (unat n - unat sp))" by (rule compute_round_pow2)
  with sp show ?thesis by simp
qed

text \<open>
  The XOR of a table with itself is zero, and in the gate-level instance every output
  of a self-miter is such a table.
\<close>

lemma is_const0_xor_self: "is_const0 (table_xor t t)"
  by (simp add: is_const0_def table_xor_def list_all_iff zip_same_conv_map)

lemma map2_same: "map2 f xs xs = map (\<lambda>x. f x x) xs"
  by (simp add: zip_same_conv_map)

lemma network_self_miter:
  assumes "miter network_ops ntk ntk = Some m"
  shows "simulate network_ops m ps = map (\<lambda>t. table_xor t t) (map (evaluate ps) (outputs ntk))"
  using assms by (auto simp: network_ops_def network_miter_def map2_same)

text \<open>
  The planner is also defined for every network with at most 40 primary inputs and
  between 1 and 5592405 gates: candidate 9 is then within the budget, so at most 31
  inputs stay outside the split.
\<close>

lemma spec_footprint_mono: "s \<le> s' \<Longrightarrow> spec_footprint s V \<le> spec_footprint s' V"
proof -
  assume "s \<le> s'"
  then have "(2::nat) ^ (s - 3) \<le> 2 ^ (s' - 3)" by (intro power_increasing) simp_all
  then show ?thesis by (simp add: spec_footprint_def)
qed

lemma planner_defined_40:
  assumes "unat n \<le> 40" and "0 < unat V" and "unat V \<le> 5592405"
  shows "\<exists>sp rnds. compute_split_var n V = Some sp \<and> compute_round n sp = Some rnds"
proof (cases "unat n \<le> 34")
  case True
  then show ?thesis by (rule planner_defined)
next
  case False
  then have n6: "6 < n" by (simp add: word_less_nat_alt)
  from assms(2) have V0: "V \<noteq> 0" by (simp add: unat_gt_0)
  from assms(3) have "48 * unat V < 2 ^ 32" by simp
  from compute_split_var_in_budget [OF n6 this] V0
  obtain r where r: "compute_split_var n V = Some r" "unat r \<le> unat n"
    "unat r < unat n \<longrightarrow> 2 ^ 29 < spec_footprint (unat r + 1) (unat V)" by blast
  have "unat n - unat r < 32"
  proof (rule ccontr)
    assume "\<not> unat n - unat r < 32"
    with assms(1) have lt: "unat r < unat n" and "unat r + 1 \<le> 9" by simp_all
    from spec_footprint_mono [OF this(2)]
    have "spec_footprint (unat r + 1) (unat V) \<le> spec_footprint 9 (unat V)" .
    also have "\<dots> \<le> 2 ^ 29" using assms(3) by (simp add: spec_footprint_def)
    finally show False using r(3) lt by simp
  qed
  moreover from r(2) have "r \<le> n" by (simp add: word_le_nat_alt)
  ultimately have "compute_round n r = Some (2 ^ (unat n - unat r))"
    by (intro compute_round_pow2)
  with r(1) show ?thesis by simp
qed

text \<open>When every output table of every round is zero, \<open>run\<close> returns \<open>true\<close>.\<close>

lemma run_all_zero:
  assumes "compute_split_var (num_pis ops m) (num_gates ops m) = Some sp"
    and "compute_round (num_pis ops m) sp = Some rnds"
    and "\<And>ps. check_outputs (simulate ops m ps)"
  shows "\<exists>passes. run ops m st = Some (True, st\<lparr>split_var := sp, rounds := rnds\<rparr>, passes)"
proof -
  obtain res passes where rl: "round_loop (simulate ops m) sp rnds 0 = (res, passes)"
    by (cases "round_loop (simulate ops m) sp rnds 0")
  with round_loop_spec [OF rl] assms(3) have "res" by simp
  with assms(1,2) rl show ?thesis by (simp add: run_def)
qed

text \<open>In the gate-level instance the miter of a network with itself is always built.\<close>

lemma network_self_miter_built: "\<exists>m. miter network_ops ntk ntk = Some m"
  by (simp add: network_ops_def network_miter_def)

text \<open>
  Claim C9. For every network \<open>N\<close> with at most 40 primary inputs whose miter with
  itself is built, \<open>simulation_cec N N\<close> returns the present optional value \<open>true\<close>, and
  hands the planner's split variable and round count to the statistics object of
  the caller: every output of the self-miter is an output XOR itself, so every output
  table of every round is zero. The statement is for the calls in which the planner
  has a value, that is, in which no shift reaches 32 bits.
\<close>

theorem simulation_cec_reflexive:
  assumes "\<not> 40 < num_pis network_ops ntk"
    and "miter network_ops ntk ntk = Some m"
    and "compute_split_var (num_pis network_ops m) (num_gates network_ops m) = Some sp"
    and "compute_round (num_pis network_ops m) sp = Some rnds"
  shows "simulation_cec network_ops ntk ntk pst =
    Some (Some True, map_option (\<lambda>_. \<lparr>split_var = sp, rounds = rnds\<rparr>) pst)"
proof -
  have "check_outputs (simulate network_ops m ps)" for ps
    by (simp add: network_self_miter [OF assms(2)] check_outputs_iff is_const0_xor_self)
  from run_all_zero [OF assms(3,4) this, of default_stats]
  obtain passes where "run network_ops m default_stats =
      Some (True, default_stats\<lparr>split_var := sp, rounds := rnds\<rparr>, passes)" by blast
  with assms(1,2) show ?thesis by (simp add: simulation_cec_def default_stats_def)
qed

theorem simulation_cec_reflexive_witness:
  "\<not> 40 < num_pis network_ops and2 \<and>
   miter network_ops and2 and2 = Some and2_miter \<and>
   compute_split_var (num_pis network_ops and2_miter) (num_gates network_ops and2_miter) = Some 2 \<and>
   compute_round (num_pis network_ops and2_miter) 2 = Some 1 \<and>
   simulation_cec network_ops and2 and2 (Some \<lparr>split_var = 9, rounds = 9\<rparr>) =
     Some (Some True, Some \<lparr>split_var = 2, rounds = 1\<rparr>)"
proof -
  have h: "\<not> 40 < num_pis network_ops and2" "miter network_ops and2 and2 = Some and2_miter"
    "compute_split_var (num_pis network_ops and2_miter) (num_gates network_ops and2_miter) = Some 2"
    "compute_round (num_pis network_ops and2_miter) 2 = Some 1"
    by (simp_all add: cec_eval and2_miter_def planner_eval)
  from simulation_cec_reflexive [OF h, of "Some \<lparr>split_var = 9, rounds = 9\<rparr>"] h
  show ?thesis by simp
qed

end
